theory Spec2Isabelle
  imports Complex_Main "HOL-Library.Word"
begin

section \<open>Strings\<close>

text \<open>
  The script \<^verbatim>\<open>scripts/build-report-data.ts\<close> works on JavaScript strings, which are
  sequences of 16-bit code units: \<^verbatim>\<open>csvText[i]\<close> reads one code unit and
  \<^verbatim>\<open>s += char\<close> appends one. A string is a list of 16-bit words; \<open>js\<close> writes an
  ASCII literal.
\<close>

type_synonym jschar = "16 word"
type_synonym jsstring = "jschar list"

definition js :: "string \<Rightarrow> jsstring" where
  "js s = map (\<lambda>c. of_nat (of_char c)) s"

abbreviation DQUOTE :: jschar where "DQUOTE \<equiv> 0x22"
abbreviation COMMA :: jschar where "COMMA \<equiv> 0x2C"
abbreviation LF :: jschar where "LF \<equiv> 0x0A"
abbreviation CR :: jschar where "CR \<equiv> 0x0D"

text \<open>
  \<^verbatim>\<open>String.prototype.trim\<close> removes leading and trailing code units that are
  ECMAScript WhiteSpace or LineTerminator: TAB, LF, VT, FF, CR, SP, NBSP, U+1680,
  U+2000 to U+200A, U+2028, U+2029, U+202F, U+205F, U+3000 and U+FEFF.
\<close>

definition isWhiteSpace :: "jschar \<Rightarrow> bool" where
  "isWhiteSpace c \<longleftrightarrow>
     c = 0x09 \<or> c = 0x0A \<or> c = 0x0B \<or> c = 0x0C \<or> c = 0x0D \<or> c = 0x20 \<or>
     c = 0xA0 \<or> c = 0x1680 \<or> (0x2000 \<le> c \<and> c \<le> 0x200A) \<or>
     c = 0x2028 \<or> c = 0x2029 \<or> c = 0x202F \<or> c = 0x205F \<or> c = 0x3000 \<or>
     c = 0xFEFF"

definition trim :: "jsstring \<Rightarrow> jsstring" where
  "trim s = rev (dropWhile isWhiteSpace (rev (dropWhile isWhiteSpace s)))"

section \<open>The row tokenizer: \<^verbatim>\<open>parseCSVRow\<close>\<close>

text \<open>
  \<^verbatim>\<open>row[i + 1] === '"'\<close>: the look-ahead of both scanners. Past the end of the
  string the read yields \<^verbatim>\<open>undefined\<close>, which is not a quote.
\<close>

fun nextIsQuote :: "jsstring \<Rightarrow> bool" where
  "nextIsQuote [] = False"
| "nextIsQuote (d # _) = (d = DQUOTE)"

text \<open>
  The \<^verbatim>\<open>for\<close> loop of \<^verbatim>\<open>parseCSVRow\<close> over the characters still to be read, with
  its three variables \<^verbatim>\<open>values\<close>, \<^verbatim>\<open>current\<close> and \<^verbatim>\<open>inQuotes\<close> as the state. The
  \<^verbatim>\<open>i++\<close> of the doubled-quote branch skips the second quote (\<open>tl cs\<close>).
\<close>

fun scanRow ::
  "jsstring \<Rightarrow> jsstring list \<times> jsstring \<times> bool \<Rightarrow> jsstring list \<times> jsstring \<times> bool" where
  "scanRow [] st = st"
| "scanRow (c # cs) (values, current, inQuotes) =
     (if c = DQUOTE then
        (if inQuotes \<and> nextIsQuote cs
         then scanRow (tl cs) (values, current @ [DQUOTE], inQuotes)
         else scanRow cs (values, current, \<not> inQuotes))
      else if c = COMMA \<and> \<not> inQuotes then scanRow cs (values @ [current], [], inQuotes)
      else scanRow cs (values, current @ [c], inQuotes))"

text \<open>After the loop, \<^verbatim>\<open>values.push(current)\<close> whatever the quote state is.\<close>

definition parseCSVRow :: "jsstring \<Rightarrow> jsstring list" where
  "parseCSVRow row =
     (case scanRow row ([], [], False) of (values, current, _) \<Rightarrow> values @ [current])"

section \<open>The CSV parser: \<^verbatim>\<open>parseCSV\<close>\<close>

subsection \<open>Splitting the text into logical lines\<close>

text \<open>\<^verbatim>\<open>if (currentLine.trim()) lines.push(currentLine)\<close>: a blank line is not kept.\<close>

definition pushLine :: "jsstring list \<Rightarrow> jsstring \<Rightarrow> jsstring list" where
  "pushLine lines currentLine = (if trim currentLine \<noteq> [] then lines @ [currentLine] else lines)"

text \<open>
  The first loop of \<^verbatim>\<open>parseCSV\<close>, with \<^verbatim>\<open>lines\<close>, \<^verbatim>\<open>currentLine\<close> and \<^verbatim>\<open>inQuotes\<close>
  as the state. A quote that toggles the mode is copied into the line; of a doubled
  quote inside quotes, one quote is copied and the other is skipped.
\<close>

fun scanLines ::
  "jsstring \<Rightarrow> jsstring list \<times> jsstring \<times> bool \<Rightarrow> jsstring list \<times> jsstring \<times> bool" where
  "scanLines [] st = st"
| "scanLines (c # cs) (lines, currentLine, inQuotes) =
     (if c = DQUOTE then
        (if inQuotes \<and> nextIsQuote cs
         then scanLines (tl cs) (lines, currentLine @ [DQUOTE], inQuotes)
         else scanLines cs (lines, currentLine @ [c], \<not> inQuotes))
      else if c = LF \<and> \<not> inQuotes then scanLines cs (pushLine lines currentLine, [], inQuotes)
      else if c = CR \<and> \<not> inQuotes then scanLines cs (lines, currentLine, inQuotes)
      else scanLines cs (lines, currentLine @ [c], inQuotes))"

definition splitLines :: "jsstring \<Rightarrow> jsstring list" where
  "splitLines csvText =
     (case scanLines csvText ([], [], False) of
        (lines, currentLine, _) \<Rightarrow> pushLine lines currentLine)"

text \<open>
  Whether some carriage return of the text is read while the line splitter is inside
  quotes. The quote state follows the branches of \<open>scanLines\<close>: a doubled quote inside
  quotes keeps the state, any other quote toggles it.
\<close>

fun crInQuotes :: "jsstring \<Rightarrow> bool \<Rightarrow> bool" where
  "crInQuotes [] inQuotes = False"
| "crInQuotes (c # cs) inQuotes =
     (if c = DQUOTE then
        (if inQuotes \<and> nextIsQuote cs then crInQuotes (tl cs) inQuotes
         else crInQuotes cs (\<not> inQuotes))
      else if c = CR \<and> inQuotes then True
      else crInQuotes cs inQuotes)"

subsection \<open>Building one row\<close>

text \<open>
  A row is the object \<^verbatim>\<open>obj\<close>, created by the literal \<^verbatim>\<open>{}\<close>: a finite map from
  property names to strings. The order of the keys is not modelled.

  \<^verbatim>\<open>obj[header] = value\<close> is an ordinary property assignment on an object whose
  prototype is \<^verbatim>\<open>Object.prototype\<close>. For every name but one it creates or
  overwrites an own property. The name \<^verbatim>\<open>__proto__\<close> is an accessor inherited from
  \<^verbatim>\<open>Object.prototype\<close>; its setter ignores a value that is neither an object nor
  \<^verbatim>\<open>null\<close>, so assigning a string to it leaves the object without any new key.
\<close>

type_synonym row = "jsstring \<rightharpoonup> jsstring"

definition protoKey :: jsstring where
  "protoKey = js ''__proto__''"

definition objSet :: "row \<Rightarrow> jsstring \<Rightarrow> jsstring \<Rightarrow> row" where
  "objSet obj k v = (if k = protoKey then obj else obj(k \<mapsto> v))"

text \<open>\<^verbatim>\<open>values[j]?.trim() ?? ""\<close>: a position past the end of \<^verbatim>\<open>values\<close> reads as empty.\<close>

definition cell :: "jsstring list \<Rightarrow> nat \<Rightarrow> jsstring" where
  "cell values j = (if j < length values then trim (values ! j) else [])"

text \<open>
  \<open>fillRow headers values n\<close> is the pair \<^verbatim>\<open>(obj, rowHasData)\<close> after \<open>n\<close> iterations
  of the inner loop \<^verbatim>\<open>for (let j = 0; j < headers.length; j++)\<close>; the loop runs
  \<open>length headers\<close> times.
\<close>

primrec fillRow :: "jsstring list \<Rightarrow> jsstring list \<Rightarrow> nat \<Rightarrow> row \<times> bool" where
  "fillRow headers values 0 = (Map.empty, False)"
| "fillRow headers values (Suc j) =
     (case fillRow headers values j of
        (obj, rowHasData) \<Rightarrow>
          (let header = trim (headers ! j); value = cell values j
           in if header \<noteq> [] \<and> value \<noteq> [] then (objSet obj header value, True)
              else (obj, rowHasData)))"

definition buildRow :: "jsstring list \<Rightarrow> jsstring list \<Rightarrow> row \<times> bool" where
  "buildRow headers values = fillRow headers values (length headers)"

subsection \<open>The table\<close>

text \<open>The loop over \<^verbatim>\<open>lines[1]\<close>, \<^verbatim>\<open>lines[2]\<close>, ...: a row is pushed when it has data.\<close>

fun dataRows :: "jsstring list \<Rightarrow> jsstring list \<Rightarrow> row list" where
  "dataRows headers [] = []"
| "dataRows headers (line # rest) =
     (case buildRow headers (parseCSVRow line) of
        (obj, rowHasData) \<Rightarrow> (if rowHasData then [obj] else []) @ dataRows headers rest)"

definition parseCSV :: "jsstring \<Rightarrow> row list" where
  "parseCSV csvText =
     (let lines = splitLines csvText
      in if length lines < 2 then []
         else dataRows (parseCSVRow (lines ! 0)) (drop 1 lines))"

section \<open>The snapshot builder: \<^verbatim>\<open>main\<close>\<close>

subsection \<open>Configuration\<close>

record sheet_config =
  key :: jsstring
  name :: jsstring
  gid :: jsstring

definition SHEET_ID :: jsstring where
  "SHEET_ID = js ''1_DZZfguLRiZe4MBg78Ah-ftSuaRMfuj5QlieKsttyGg''"

definition SHEET_CONFIGS :: "sheet_config list" where
  "SHEET_CONFIGS =
    [\<lparr>key = js ''output'', name = js ''output'', gid = js ''0''\<rparr>,
     \<lparr>key = js ''ebitda_timeseries'', name = js ''EBITDA Timeseries'', gid = js ''845629928''\<rparr>,
     \<lparr>key = js ''revenue_timeseries'', name = js ''Revenue Timeseries'', gid = js ''755104021''\<rparr>,
     \<lparr>key = js ''employee_timeseries'', name = js ''Employee timeseries'', gid = js ''12460386''\<rparr>,
     \<lparr>key = js ''ev_timeseries'', name = js ''EV timeseries'', gid = js ''790875073''\<rparr>,
     \<lparr>key = js ''mafia'', name = js ''Mafia'', gid = js ''1431246161''\<rparr>,
     \<lparr>key = js ''founders'', name = js ''founders'', gid = js ''275207722''\<rparr>,
     \<lparr>key = js ''all_vc_rounds'', name = js ''All VC Rounds'', gid = js ''62762089''\<rparr>]"

subsection \<open>Fetching one sheet\<close>

text \<open>
  \<^verbatim>\<open>fetchSheetData\<close> throws when the response is not \<^verbatim>\<open>ok\<close>, and the awaited
  \<^verbatim>\<open>fetch\<close> and \<^verbatim>\<open>response.text()\<close> reject on a transport failure. The network is a
  parameter: what the request for a sheet yields, an error or the CSV text.
\<close>

datatype fetch_error = ResponseNotOk | TransportFailure

type_synonym network = "sheet_config \<Rightarrow> fetch_error + jsstring"

definition fetchSheetData :: "network \<Rightarrow> sheet_config \<Rightarrow> fetch_error + row list" where
  "fetchSheetData net config =
     (case net config of Inl e \<Rightarrow> Inl e | Inr csvText \<Rightarrow> Inr (parseCSV csvText))"

text \<open>
  The loop \<^verbatim>\<open>for (const config of SHEET_CONFIGS)\<close> with its \<^verbatim>\<open>try\<close>/\<^verbatim>\<open>catch\<close>: the
  sheets are fetched one after the other, and a failure stores the empty array. The
  keys assigned are those of \<open>SHEET_CONFIGS\<close>, all ordinary property names, so
  \<^verbatim>\<open>sheetsData[config.key] = ...\<close> creates or overwrites an entry of the map.
\<close>

fun fetchAll ::
  "network \<Rightarrow> sheet_config list \<Rightarrow> (jsstring \<rightharpoonup> row list) \<Rightarrow> (jsstring \<rightharpoonup> row list)" where
  "fetchAll net [] sheetsData = sheetsData"
| "fetchAll net (config # rest) sheetsData =
     fetchAll net rest
       (case fetchSheetData net config of
          Inr allRows \<Rightarrow> sheetsData(key config \<mapsto> allRows)
        | Inl error \<Rightarrow> sheetsData(key config \<mapsto> []))"

subsection \<open>Metadata\<close>

text \<open>
  The clock, as \<^verbatim>\<open>new Date()\<close> is read: \<^verbatim>\<open>getFullYear()\<close>, \<^verbatim>\<open>getMonth()\<close> (0 for
  January to 11 for December) and \<^verbatim>\<open>toISOString()\<close>.
\<close>

record clock =
  fullYear :: int
  monthIndex :: nat
  isoString :: jsstring

text \<open>
  \<^verbatim>\<open>Math.ceil((now.getMonth() + 1) / 3)\<close>. The quotient is taken over the reals: for
  the twelve months the double-precision quotient is either an exact integer or lies
  strictly between two integers, so its ceiling is the same.
\<close>

definition quarterNumber :: "clock \<Rightarrow> int" where
  "quarterNumber now = \<lceil>(real (monthIndex now) + 1) / 3\<rceil>"

text \<open>A number written into a template literal: its decimal digits, with a sign.\<close>

definition digitChar :: "nat \<Rightarrow> jschar" where
  "digitChar d = of_nat (48 + d)"

fun digitsOf :: "nat \<Rightarrow> jsstring" where
  "digitsOf n = (if n < 10 then [digitChar n] else digitsOf (n div 10) @ [digitChar (n mod 10)])"

definition numberToString :: "int \<Rightarrow> jsstring" where
  "numberToString i = (if i < 0 then 0x2D # digitsOf (nat (- i)) else digitsOf (nat i))"

record meta_data =
  generated_at :: jsstring
  source_sheet_id :: jsstring
  reporting_quarter :: jsstring
  reporting_year :: int
  reporting_quarter_number :: int
  schema_version :: jsstring

record report_data =
  meta :: meta_data
  sheets :: "jsstring \<rightharpoonup> row list"
  config_schema_version :: jsstring

definition buildOutput :: "(jsstring \<rightharpoonup> row list) \<Rightarrow> clock \<Rightarrow> report_data" where
  "buildOutput sheetsData now =
     (let year = fullYear now;
          quarter = quarterNumber now;
          reportingQuarter = numberToString year @ js ''Q'' @ numberToString quarter
      in \<lparr>meta = \<lparr>generated_at = isoString now,
                   source_sheet_id = SHEET_ID,
                   reporting_quarter = reportingQuarter,
                   reporting_year = year,
                   reporting_quarter_number = quarter,
                   schema_version = js ''2.0''\<rparr>,
          sheets = sheetsData,
          config_schema_version = js ''1.0''\<rparr>)"

subsection \<open>Writing the artifact\<close>

text \<open>
  The file system, as \<^verbatim>\<open>main\<close> meets it: whether \<^verbatim>\<open>public\<close> exists, and whether
  \<^verbatim>\<open>mkdirSync\<close> and \<^verbatim>\<open>writeFileSync(outputPath, JSON.stringify(output))\<close> throw.
  An exception there reaches the outer \<^verbatim>\<open>catch\<close>, which ends the process with
  \<^verbatim>\<open>process.exit(1)\<close>; otherwise the process ends with exit code 0. The result of
  \<open>main\<close> is the exit code and the artifact written, if any.
\<close>

record fs_env =
  publicDirExists :: bool
  mkdirThrows :: bool
  writeThrows :: bool

text \<open>
  The object \<^verbatim>\<open>output\<close> of a run: the tables of the configured sheets, fetched in
  order, and the metadata computed from the clock.
\<close>

definition snapshot :: "network \<Rightarrow> clock \<Rightarrow> report_data" where
  "snapshot net now = buildOutput (fetchAll net SHEET_CONFIGS Map.empty) now"

definition main :: "network \<Rightarrow> clock \<Rightarrow> fs_env \<Rightarrow> nat \<times> report_data option" where
  "main net now fs =
     (let output = snapshot net now
      in if \<not> publicDirExists fs \<and> mkdirThrows fs then (1, None)
         else if writeThrows fs then (1, None)
         else (0, Some output))"

subsection \<open>The pattern of the reporting quarter\<close>

text \<open>
  The regular expression \<^verbatim>\<open>^\d{4}Q[1-4]$\<close> that the output schema gives for
  \<^verbatim>\<open>meta.reporting_quarter\<close>: four decimal digits, the letter Q, a digit from 1 to 4.
\<close>

definition isDigit :: "jschar \<Rightarrow> bool" where
  "isDigit c \<longleftrightarrow> 0x30 \<le> c \<and> c \<le> 0x39"

definition matchesQuarterPattern :: "jsstring \<Rightarrow> bool" where
  "matchesQuarterPattern s \<longleftrightarrow>
     length s = 6 \<and> isDigit (s ! 0) \<and> isDigit (s ! 1) \<and> isDigit (s ! 2) \<and> isDigit (s ! 3) \<and>
     s ! 4 = 0x51 \<and> 0x31 \<le> s ! 5 \<and> s ! 5 \<le> 0x34"

section \<open>Facts about strings\<close>

lemmas eval_defs = js_def parseCSVRow_def parseCSV_def splitLines_def pushLine_def trim_def
  isWhiteSpace_def buildRow_def cell_def objSet_def protoKey_def

lemma trim_eq_Nil_iff: "trim s = [] \<longleftrightarrow> (\<forall>c\<in>set s. isWhiteSpace c)"
proof
  assume "trim s = []"
  then have a: "dropWhile isWhiteSpace (rev (dropWhile isWhiteSpace s)) = []"
    by (simp add: trim_def)
  show "\<forall>c\<in>set s. isWhiteSpace c"
  proof (cases "dropWhile isWhiteSpace s")
    case Nil
    then show ?thesis by (simp add: dropWhile_eq_Nil_conv)
  next
    case (Cons x xs)
    then have "\<not> isWhiteSpace x" by (metis hd_dropWhile list.distinct(1) list.sel(1))
    moreover from a Cons have "isWhiteSpace x" by (simp add: dropWhile_eq_Nil_conv)
    ultimately show ?thesis by simp
  qed
next
  assume "\<forall>c\<in>set s. isWhiteSpace c"
  then have d: "dropWhile isWhiteSpace s = []" by (simp add: dropWhile_eq_Nil_conv)
  show "trim s = []" unfolding trim_def d by simp
qed

lemma set_trim_subset: "set (trim s) \<subseteq> set s"
proof -
  have "set (trim s) \<subseteq> set (rev (dropWhile isWhiteSpace s))"
    unfolding trim_def set_rev by (auto dest: set_dropWhileD)
  also have "\<dots> \<subseteq> set s" by (auto dest: set_dropWhileD)
  finally show ?thesis .
qed

lemma trim_idem: "trim (trim s) = trim s"
proof -
  let ?t = "dropWhile isWhiteSpace s"
  let ?u = "dropWhile isWhiteSpace (rev ?t)"
  have ts: "trim s = rev ?u" by (simp add: trim_def)
  show ?thesis
  proof (cases "?u = []")
    case True
    then have e: "trim s = []" by (simp add: trim_def)
    show ?thesis unfolding e by (simp add: trim_def)
  next
    case False
    then have hu: "\<not> isWhiteSpace (hd ?u)" by (rule hd_dropWhile)
    have t: "?t \<noteq> []"
    proof
      assume "?t = []"
      then have "?u = []" by (simp only: rev.simps dropWhile.simps)
      with False show False by simp
    qed
    then have ht: "\<not> isWhiteSpace (hd ?t)" by (rule hd_dropWhile)
    have "rev ?t = takeWhile isWhiteSpace (rev ?t) @ ?u" by simp
    then have "?t = rev ?u @ rev (takeWhile isWhiteSpace (rev ?t))"
      by (metis rev_append rev_rev_ident)
    with False have "hd (rev ?u) = hd ?t" by (metis hd_append2 rev_is_Nil_conv)
    with ht have "dropWhile isWhiteSpace (rev ?u) = rev ?u"
      using False by (simp add: dropWhile_eq_self_iff)
    moreover have "dropWhile isWhiteSpace ?u = ?u"
      using hu by (simp add: dropWhile_eq_self_iff)
    ultimately show ?thesis unfolding ts by (simp add: trim_def)
  qed
qed

lemma trim_Nil: "trim [] = []"
  by (simp add: trim_def)

section \<open>Properties of the row tokenizer\<close>

lemma nextIsQuote_iff: "nextIsQuote cs \<longleftrightarrow> (\<exists>ds. cs = DQUOTE # ds)"
  by (cases cs) auto

lemma scanRow_open: "scanRow (DQUOTE # cs) (vals, current, False) = scanRow cs (vals, current, True)"
  by simp

lemma scanRow_close:
  "\<not> nextIsQuote cs \<Longrightarrow> scanRow (DQUOTE # cs) (vals, current, True) = scanRow cs (vals, current, False)"
  by simp

lemma scanRow_escaped:
  "scanRow (DQUOTE # DQUOTE # cs) (vals, current, True) = scanRow cs (vals, current @ [DQUOTE], True)"
  by simp

lemma scanRow_quoted_run:
  "DQUOTE \<notin> set xs \<Longrightarrow>
   scanRow (xs @ rest) (vals, current, True) = scanRow rest (vals, current @ xs, True)"
  by (induction xs arbitrary: current) auto

lemma scanRow_comma: "scanRow (COMMA # cs) (vals, current, False) = scanRow cs (vals @ [current], [], False)"
  by simp






lemma parseCSVRow_quoted_field:
  assumes "DQUOTE \<notin> set body"
  shows "parseCSVRow (DQUOTE # body @ [DQUOTE]) = [body]"
  using scanRow_quoted_run[OF assms, of "[DQUOTE]" "[]" "[]"]
  by (simp add: parseCSVRow_def)





section \<open>Properties of the line splitter and the parser\<close>

lemma DQUOTE_not_ws: "\<not> isWhiteSpace DQUOTE"
  by (simp add: isWhiteSpace_def)

lemma trim_snoc_ws: "isWhiteSpace c \<Longrightarrow> trim (s @ [c]) = [] \<longleftrightarrow> trim s = []"
  by (simp add: trim_eq_Nil_iff)

lemma trim_quoted_not_Nil: "trim (DQUOTE # s) \<noteq> []"
  by (simp add: trim_eq_Nil_iff DQUOTE_not_ws)

lemma scanRow_unquoted_run:
  "DQUOTE \<notin> set xs \<Longrightarrow> COMMA \<notin> set xs \<Longrightarrow>
   scanRow (xs @ rest) (vals, current, False) = scanRow rest (vals, current @ xs, False)"
  by (induction xs arbitrary: current) auto

lemma parseCSVRow_plain:
  "DQUOTE \<notin> set xs \<Longrightarrow> COMMA \<notin> set xs \<Longrightarrow> parseCSVRow xs = [xs]"
  using scanRow_unquoted_run[of xs "[]" "[]" "[]"] by (simp add: parseCSVRow_def)

lemma scanRow_quoted_region:
  assumes "DQUOTE \<notin> set body" and "\<not> nextIsQuote rest"
  shows "scanRow (DQUOTE # body @ DQUOTE # rest) (vals, current, False) =
         scanRow rest (vals, current @ body, False)"
proof -
  have "scanRow (DQUOTE # body @ DQUOTE # rest) (vals, current, False) =
        scanRow (body @ DQUOTE # rest) (vals, current, True)"
    by simp
  also have "\<dots> = scanRow (DQUOTE # rest) (vals, current @ body, True)"
    using assms(1) by (rule scanRow_quoted_run)
  also have "\<dots> = scanRow rest (vals, current @ body, False)"
    using assms(2) by simp
  finally show ?thesis .
qed

lemma scanLines_quoted_run:
  "DQUOTE \<notin> set xs \<Longrightarrow>
   scanLines (xs @ rest) (lines, current, True) = scanLines rest (lines, current @ xs, True)"
  by (induction xs arbitrary: current) auto

lemma scanLines_unquoted_run:
  "DQUOTE \<notin> set xs \<Longrightarrow> LF \<notin> set xs \<Longrightarrow> CR \<notin> set xs \<Longrightarrow>
   scanLines (xs @ rest) (lines, current, False) = scanLines rest (lines, current @ xs, False)"
  by (induction xs arbitrary: current) auto

lemma scanLines_quoted_region:
  assumes "DQUOTE \<notin> set body" and "\<not> nextIsQuote rest"
  shows "scanLines (DQUOTE # body @ DQUOTE # rest) (lines, current, False) =
         scanLines rest (lines, current @ DQUOTE # body @ [DQUOTE], False)"
proof -
  have "scanLines (DQUOTE # body @ DQUOTE # rest) (lines, current, False) =
        scanLines (body @ DQUOTE # rest) (lines, current @ [DQUOTE], True)"
    by simp
  also have "\<dots> = scanLines (DQUOTE # rest) (lines, (current @ [DQUOTE]) @ body, True)"
    using assms(1) by (rule scanLines_quoted_run)
  also have "\<dots> = scanLines rest (lines, current @ DQUOTE # body @ [DQUOTE], False)"
    using assms(2) by simp
  finally show ?thesis .
qed

lemma splitLines_header_quoted:
  assumes "DQUOTE \<notin> set hdr" "LF \<notin> set hdr" "CR \<notin> set hdr" "trim hdr \<noteq> []"
    and "DQUOTE \<notin> set body"
  shows "splitLines (hdr @ LF # DQUOTE # body @ [DQUOTE]) = [hdr, DQUOTE # body @ [DQUOTE]]"
proof -
  have "scanLines (hdr @ LF # DQUOTE # body @ [DQUOTE]) ([], [], False) =
        scanLines (LF # DQUOTE # body @ [DQUOTE]) ([], [] @ hdr, False)"
    using assms(1-3) by (rule scanLines_unquoted_run)
  also have "\<dots> = scanLines (DQUOTE # body @ DQUOTE # []) ([hdr], [], False)"
    using assms(4) by (simp add: pushLine_def)
  also have "\<dots> = scanLines [] ([hdr], [] @ DQUOTE # body @ [DQUOTE], False)"
    using assms(5) by (intro scanLines_quoted_region) simp_all
  finally show ?thesis
    by (simp add: splitLines_def pushLine_def trim_quoted_not_Nil)
qed

text \<open>
  Newlines in a quoted region that has no quote in it. Inside quotes the line splitter
  appends a newline to the current line and pushes no line, and the tokenizer appends
  a newline to the current field in either mode. Wherever the line splitter meets,
  outside quotes, a quoted region whose text has no quote in it (and that is not
  followed by another quote), it appends the whole region, newlines included, to the
  current line and pushes no line; the tokenizer then appends the text of the region,
  newlines included, to the current field. For a text made of a one-column header line
  and one such quoted data cell, the parser returns exactly one row, whose value is
  the trimmed text of the cell with its inner newlines.
\<close>

lemma quoted_region_newlines_kept:
  assumes "DQUOTE \<notin> set body"
  shows "scanLines (LF # cs) (lines, currentLine, True) =
           scanLines cs (lines, currentLine @ [LF], True) \<and>
         scanRow (LF # cs) (vals, current, inQuotes) =
           scanRow cs (vals, current @ [LF], inQuotes) \<and>
         (\<not> nextIsQuote rest \<longrightarrow>
            scanLines (DQUOTE # body @ DQUOTE # rest) (lines, currentLine, False) =
              scanLines rest (lines, currentLine @ DQUOTE # body @ [DQUOTE], False) \<and>
            scanRow (DQUOTE # body @ DQUOTE # rest) (vals, current, False) =
              scanRow rest (vals, current @ body, False)) \<and>
         (DQUOTE \<notin> set hdr \<and> COMMA \<notin> set hdr \<and> LF \<notin> set hdr \<and> CR \<notin> set hdr \<and>
          trim hdr \<noteq> [] \<and> trim hdr \<noteq> protoKey \<and> trim body \<noteq> [] \<longrightarrow>
            splitLines (hdr @ LF # DQUOTE # body @ [DQUOTE]) = [hdr, DQUOTE # body @ [DQUOTE]] \<and>
            parseCSV (hdr @ LF # DQUOTE # body @ [DQUOTE]) = [[trim hdr \<mapsto> trim body]])"
proof (intro conjI impI)
  show "scanLines (LF # cs) (lines, currentLine, True) =
      scanLines cs (lines, currentLine @ [LF], True)"
    by simp
next
  show "scanRow (LF # cs) (vals, current, inQuotes) =
      scanRow cs (vals, current @ [LF], inQuotes)"
    by simp
next
  assume "\<not> nextIsQuote rest"
  with assms show "scanLines (DQUOTE # body @ DQUOTE # rest) (lines, currentLine, False) =
      scanLines rest (lines, currentLine @ DQUOTE # body @ [DQUOTE], False)"
    by (rule scanLines_quoted_region)
next
  assume "\<not> nextIsQuote rest"
  with assms show "scanRow (DQUOTE # body @ DQUOTE # rest) (vals, current, False) =
      scanRow rest (vals, current @ body, False)"
    by (rule scanRow_quoted_region)
next
  assume h: "DQUOTE \<notin> set hdr \<and> COMMA \<notin> set hdr \<and> LF \<notin> set hdr \<and> CR \<notin> set hdr \<and>
          trim hdr \<noteq> [] \<and> trim hdr \<noteq> protoKey \<and> trim body \<noteq> []"
  then show "splitLines (hdr @ LF # DQUOTE # body @ [DQUOTE]) = [hdr, DQUOTE # body @ [DQUOTE]]"
    using assms by (intro splitLines_header_quoted) simp_all
next
  assume h: "DQUOTE \<notin> set hdr \<and> COMMA \<notin> set hdr \<and> LF \<notin> set hdr \<and> CR \<notin> set hdr \<and>
          trim hdr \<noteq> [] \<and> trim hdr \<noteq> protoKey \<and> trim body \<noteq> []"
  then have l: "splitLines (hdr @ LF # DQUOTE # body @ [DQUOTE]) = [hdr, DQUOTE # body @ [DQUOTE]]"
    using assms by (intro splitLines_header_quoted) simp_all
  have hs: "parseCSVRow hdr = [hdr]"
    using h by (simp add: parseCSVRow_plain)
  have vs: "parseCSVRow (DQUOTE # body @ [DQUOTE]) = [body]"
    using assms by (rule parseCSVRow_quoted_field)
  show "parseCSV (hdr @ LF # DQUOTE # body @ [DQUOTE]) = [[trim hdr \<mapsto> trim body]]"
    using h by (simp add: parseCSV_def l hs vs buildRow_def cell_def objSet_def)
qed

lemma quoted_region_newlines_kept_example:
  "parseCSV (js ''h'' @ LF # DQUOTE # (js ''line1'' @ LF # js ''line2'') @ [DQUOTE]) =
     [[js ''h'' \<mapsto> js ''line1'' @ LF # js ''line2'']]"
proof -
  have b: "DQUOTE \<notin> set (js ''line1'' @ LF # js ''line2'')"
    by (simp add: js_def)
  have h: "DQUOTE \<notin> set (js ''h'') \<and> COMMA \<notin> set (js ''h'') \<and> LF \<notin> set (js ''h'') \<and>
      CR \<notin> set (js ''h'') \<and> trim (js ''h'') \<noteq> [] \<and> trim (js ''h'') \<noteq> protoKey \<and>
      trim (js ''line1'' @ LF # js ''line2'') \<noteq> []"
    by (simp add: js_def trim_def isWhiteSpace_def protoKey_def)
  have t: "trim (js ''h'') = js ''h''"
      "trim (js ''line1'' @ LF # js ''line2'') = js ''line1'' @ LF # js ''line2''"
    by (simp_all add: js_def trim_def isWhiteSpace_def)
  from quoted_region_newlines_kept[where body = "js ''line1'' @ LF # js ''line2''" and hdr = "js ''h''", OF b] h
  show ?thesis by (simp only: t) simp
qed

lemma nextIsQuote_append: "\<not> nextIsQuote ys \<Longrightarrow> nextIsQuote (xs @ ys) = nextIsQuote xs"
  by (cases xs) auto

lemma scanLines_append:
  "\<not> nextIsQuote ys \<Longrightarrow> scanLines (xs @ ys) st = scanLines ys (scanLines xs st)"
proof (induction xs st rule: scanLines.induct)
  case (1 st)
  show ?case by simp
next
  case (2 c cs lines currentLine inQuotes)
  show ?case
  proof (cases "c = DQUOTE \<and> inQuotes \<and> nextIsQuote cs")
    case True
    then obtain ds where cs: "cs = DQUOTE # ds" by (auto simp: nextIsQuote_iff)
    with True 2 show ?thesis by simp
  next
    case False
    with 2 show ?thesis by (auto simp: nextIsQuote_append)
  qed
qed

lemma scanLines_no_LF:
  "LF \<notin> set xs \<Longrightarrow> fst (scanLines xs (lines, currentLine, inQuotes)) = lines"
proof (induction xs "(lines, currentLine, inQuotes)" arbitrary: currentLine inQuotes
    rule: scanLines.induct)
  case 1
  show ?case by simp
next
  case (2 c cs currentLine inQuotes)
  have "LF \<notin> set (tl cs)" using "2.prems" by (cases cs) auto
  with 2 show ?case by auto
qed

lemma scanLines_ws_count:
  "\<forall>c\<in>set ws. isWhiteSpace c \<Longrightarrow>
   (case scanLines ws (lines, currentLine, inQuotes) of
      (lines', currentLine', _) \<Rightarrow> length (pushLine lines' currentLine')) =
   length (pushLine lines currentLine)"
proof (induction ws arbitrary: lines currentLine)
  case Nil
  show ?case by simp
next
  case (Cons c ws)
  then have c: "isWhiteSpace c" "c \<noteq> DQUOTE" using DQUOTE_not_ws by auto
  have e: "pushLine (pushLine lines currentLine) [] = pushLine lines currentLine"
    by (simp add: pushLine_def trim_def)
  have s: "length (pushLine lines (currentLine @ [c])) = length (pushLine lines currentLine)"
    using c(1) by (simp add: pushLine_def trim_snoc_ws)
  show ?case
    using Cons.IH[of "pushLine lines currentLine" "[]"] Cons.IH[of lines currentLine]
      Cons.IH[of lines "currentLine @ [c]"] Cons.prems c(2) e s
    by (cases inQuotes) auto
qed

lemma header_only_lines:
  assumes "LF \<notin> set hdr" and "\<forall>c\<in>set ws. isWhiteSpace c"
  shows "length (splitLines (hdr @ ws)) \<le> 1"
proof -
  obtain l cur q where st: "scanLines hdr ([], [], False) = (l, cur, q)"
    by (cases "scanLines hdr ([], [], False)") auto
  from scanLines_no_LF[OF assms(1), of "[]" "[]" False] st have l: "l = []" by simp
  have "\<not> nextIsQuote ws" using assms(2) DQUOTE_not_ws by (cases ws) auto
  then have "scanLines (hdr @ ws) ([], [], False) = scanLines ws (l, cur, q)"
    by (simp add: scanLines_append st)
  then have "length (splitLines (hdr @ ws)) = length (pushLine l cur)"
    using scanLines_ws_count[OF assms(2), of l cur q]
    by (simp add: splitLines_def split: prod.splits)
  then show ?thesis by (simp add: l pushLine_def)
qed

text \<open>
  Claim C7. A text with fewer than two retained lines parses to the empty table, and
  \<^verbatim>\<open>parseCSV\<close> has no failing branch. This covers the empty text, a text of white
  space only, and a header line followed by nothing but white space (blank lines
  included).
\<close>

theorem fewer_than_two_lines_empty:
  "(length (splitLines csvText) < 2 \<longrightarrow> parseCSV csvText = []) \<and>
   (LF \<notin> set hdr \<and> (\<forall>c\<in>set ws. isWhiteSpace c) \<longrightarrow> parseCSV (hdr @ ws) = []) \<and>
   parseCSV [] = []"
proof (intro conjI impI)
  assume "length (splitLines csvText) < 2"
  then show "parseCSV csvText = []" by (simp add: parseCSV_def)
next
  assume "LF \<notin> set hdr \<and> (\<forall>c\<in>set ws. isWhiteSpace c)"
  then have "length (splitLines (hdr @ ws)) \<le> 1" by (intro header_only_lines) simp_all
  then show "parseCSV (hdr @ ws) = []" by (simp add: parseCSV_def)
next
  show "parseCSV [] = []" by (simp add: parseCSV_def splitLines_def pushLine_def trim_def)
qed

theorem fewer_than_two_lines_empty_witness:
  "length (splitLines (js ''a,b'')) < 2 \<and> parseCSV (js ''a,b'') = [] \<and>
   parseCSV (js ''name,city'' @ [CR, LF] @ js ''  '' @ [LF]) = [] \<and>
   parseCSV (js ''  '' @ [LF, 0x09, CR, LF]) = []"
proof -
  have a: "length (splitLines (js ''a,b'')) < 2"
    by (simp add: js_def splitLines_def pushLine_def)
  have b: "LF \<notin> set (js ''name,city'') \<and> (\<forall>c\<in>set ([CR, LF] @ js ''  '' @ [LF]). isWhiteSpace c)"
    by (simp add: js_def isWhiteSpace_def)
  have c: "LF \<notin> set [] \<and> (\<forall>c\<in>set (js ''  '' @ [LF, 0x09, CR, LF]). isWhiteSpace c)"
    by (simp add: js_def isWhiteSpace_def)
  from fewer_than_two_lines_empty[of "js ''a,b''" "js ''name,city''" "[CR, LF] @ js ''  '' @ [LF]"]
    fewer_than_two_lines_empty[of "[]" "[]" "js ''  '' @ [LF, 0x09, CR, LF]"] a b c
  show ?thesis by simp
qed

section \<open>The doubled quote\<close>

lemma doubled_quote_collapsed:
  assumes "DQUOTE \<notin> set a" and "DQUOTE \<notin> set b"
  shows "scanLines (DQUOTE # a @ DQUOTE # DQUOTE # b @ [DQUOTE]) (lines, currentLine, False) =
           (lines, currentLine @ DQUOTE # a @ DQUOTE # b @ [DQUOTE], False)"
    and "parseCSVRow (DQUOTE # a @ DQUOTE # DQUOTE # b @ [DQUOTE]) = [a @ DQUOTE # b]"
proof -
  have "scanLines (DQUOTE # a @ DQUOTE # DQUOTE # b @ [DQUOTE]) (lines, currentLine, False) =
        scanLines (a @ DQUOTE # DQUOTE # b @ [DQUOTE]) (lines, currentLine @ [DQUOTE], True)"
    by simp
  also have "\<dots> = scanLines (DQUOTE # DQUOTE # b @ [DQUOTE]) (lines, (currentLine @ [DQUOTE]) @ a, True)"
    using assms(1) by (rule scanLines_quoted_run)
  also have "\<dots> = scanLines (b @ [DQUOTE]) (lines, (currentLine @ DQUOTE # a) @ [DQUOTE], True)"
    by simp
  also have "\<dots> = scanLines [DQUOTE] (lines, ((currentLine @ DQUOTE # a) @ [DQUOTE]) @ b, True)"
    using assms(2) by (rule scanLines_quoted_run)
  finally show "scanLines (DQUOTE # a @ DQUOTE # DQUOTE # b @ [DQUOTE]) (lines, currentLine, False) =
           (lines, currentLine @ DQUOTE # a @ DQUOTE # b @ [DQUOTE], False)"
    by simp
next
  have "scanRow (DQUOTE # a @ DQUOTE # DQUOTE # b @ [DQUOTE]) ([], [], False) =
        scanRow (a @ DQUOTE # DQUOTE # b @ [DQUOTE]) ([], [], True)"
    by simp
  also have "\<dots> = scanRow (DQUOTE # DQUOTE # b @ [DQUOTE]) ([], [] @ a, True)"
    using assms(1) by (rule scanRow_quoted_run)
  also have "\<dots> = scanRow (b @ [DQUOTE]) ([], a @ [DQUOTE], True)"
    by simp
  also have "\<dots> = scanRow [DQUOTE] ([], (a @ [DQUOTE]) @ b, True)"
    using assms(2) by (rule scanRow_quoted_run)
  finally show "parseCSVRow (DQUOTE # a @ DQUOTE # DQUOTE # b @ [DQUOTE]) = [a @ DQUOTE # b]"
    by (simp add: parseCSVRow_def)
qed



text \<open>
  Claim C1. The cell \<^verbatim>\<open>"a""b"\<close> of a data line does not come out of \<^verbatim>\<open>parseCSV\<close> as
  \<^verbatim>\<open>a"b\<close>. The line splitter copies only one quote of the doubled pair into the
  line, which becomes \<^verbatim>\<open>"a"b"\<close>; the tokenizer then reads the middle quote as the
  end of the quoted region and the value is \<^verbatim>\<open>ab\<close>. The tokenizer alone, given the
  cell as written, yields \<^verbatim>\<open>a"b\<close>.
\<close>

theorem doubled_quote_lost_by_parser:
  "splitLines (js ''h'' @ LF # DQUOTE # js ''a'' @ DQUOTE # DQUOTE # js ''b'' @ [DQUOTE]) =
     [js ''h'', DQUOTE # js ''a'' @ DQUOTE # js ''b'' @ [DQUOTE]] \<and>
   length (parseCSV (js ''h'' @ LF # DQUOTE # js ''a'' @ DQUOTE # DQUOTE # js ''b'' @ [DQUOTE])) = 1 \<and>
   (parseCSV (js ''h'' @ LF # DQUOTE # js ''a'' @ DQUOTE # DQUOTE # js ''b'' @ [DQUOTE]) ! 0)
     (js ''h'') = Some (js ''ab'') \<and>
   parseCSVRow (DQUOTE # js ''a'' @ DQUOTE # DQUOTE # js ''b'' @ [DQUOTE]) =
     [js ''a'' @ DQUOTE # js ''b'']"
  by (simp add: eval_defs)

text \<open>
  Claim C3. A quoted cell that spans a newline does not always come out of
  \<^verbatim>\<open>parseCSV\<close> as one value. In the text with the header line \<^verbatim>\<open>h,g\<close> and the single
  quoted cell \<^verbatim>\<open>"a"",b\<close>, newline, \<^verbatim>\<open>c"\<close>, the newline stays inside the line and no
  second row appears, but the line splitter has dropped one quote of the doubled pair:
  the line is \<^verbatim>\<open>"a",b\<close>, newline, \<^verbatim>\<open>c"\<close>, which the tokenizer cuts at the comma into
  the two values \<^verbatim>\<open>a\<close> and \<^verbatim>\<open>b\<close>, newline, \<^verbatim>\<open>c\<close>. The tokenizer alone, given the cell
  as written, yields the one value \<^verbatim>\<open>a",b\<close>, newline, \<^verbatim>\<open>c\<close>. This is the defect of
  claim C1, met by a cell that also holds a newline.
\<close>

theorem quoted_newline_cell_cut_after_doubled_quote:
  "splitLines (js ''h,g'' @ LF # DQUOTE # js ''a'' @ DQUOTE # DQUOTE # js '',b'' @ LF # js ''c'' @ [DQUOTE]) =
     [js ''h,g'', DQUOTE # js ''a'' @ DQUOTE # js '',b'' @ LF # js ''c'' @ [DQUOTE]] \<and>
   length (parseCSV (js ''h,g'' @ LF # DQUOTE # js ''a'' @ DQUOTE # DQUOTE # js '',b'' @ LF # js ''c'' @
     [DQUOTE])) = 1 \<and>
   (parseCSV (js ''h,g'' @ LF # DQUOTE # js ''a'' @ DQUOTE # DQUOTE # js '',b'' @ LF # js ''c'' @
     [DQUOTE]) ! 0) (js ''h'') = Some (js ''a'') \<and>
   (parseCSV (js ''h,g'' @ LF # DQUOTE # js ''a'' @ DQUOTE # DQUOTE # js '',b'' @ LF # js ''c'' @
     [DQUOTE]) ! 0) (js ''g'') = Some (js ''b'' @ LF # js ''c'') \<and>
   parseCSVRow (DQUOTE # js ''a'' @ DQUOTE # DQUOTE # js '',b'' @ LF # js ''c'' @ [DQUOTE]) =
     [js ''a'' @ DQUOTE # js '',b'' @ LF # js ''c'']"
  by (simp add: eval_defs)

section \<open>Properties of a row\<close>

lemma fillRow_lookup_Some:
  "fst (fillRow headers vals n) k = Some v \<Longrightarrow>
   \<exists>j<n. trim (headers ! j) = k \<and> k \<noteq> [] \<and> k \<noteq> protoKey \<and> cell vals j = v \<and> v \<noteq> [] \<and>
     (\<forall>i. j < i \<and> i < n \<and> trim (headers ! i) = k \<longrightarrow> cell vals i = [])"
proof (induction n arbitrary: v)
  case 0
  then show ?case by simp
next
  case (Suc n)
  obtain obj has where st: "fillRow headers vals n = (obj, has)"
    by (cases "fillRow headers vals n") auto
  show ?case
  proof (cases "trim (headers ! n) = k \<and> k \<noteq> [] \<and> k \<noteq> protoKey \<and> cell vals n \<noteq> []")
    case True
    with Suc.prems st have "v = cell vals n" by (simp add: objSet_def)
    with True show ?thesis by (intro exI[of _ n]) auto
  next
    case False
    with Suc.prems st have "obj k = Some v"
      by (auto simp: objSet_def Let_def split: if_splits)
    with Suc.IH[of v] st obtain j where j: "j < n" "trim (headers ! j) = k" "k \<noteq> []"
      "k \<noteq> protoKey" "cell vals j = v" "v \<noteq> []"
      "\<forall>i. j < i \<and> i < n \<and> trim (headers ! i) = k \<longrightarrow> cell vals i = []"
      by auto
    have "\<forall>i. j < i \<and> i < Suc n \<and> trim (headers ! i) = k \<longrightarrow> cell vals i = []"
      using j(3,4,7) False by (auto simp: less_Suc_eq)
    with j show ?thesis by (intro exI[of _ j]) auto
  qed
qed


lemma fillRow_hasData:
  "snd (fillRow headers vals n) \<longleftrightarrow> (\<exists>j<n. trim (headers ! j) \<noteq> [] \<and> cell vals j \<noteq> [])"
proof (induction n)
  case 0
  show ?case by simp
next
  case (Suc n)
  then show ?case
    by (cases "fillRow headers vals n") (auto simp: Let_def less_Suc_eq)
qed

lemma cell_trimmed: "trim (cell vals j) = cell vals j"
  by (simp add: cell_def trim_idem trim_Nil)

lemma buildRow_entry:
  assumes "fst (buildRow headers vals) k = Some v"
  shows "k \<noteq> [] \<and> v \<noteq> [] \<and> trim k = k \<and> trim v = v"
proof -
  from fillRow_lookup_Some[OF assms[unfolded buildRow_def]]
  obtain j where "trim (headers ! j) = k" "k \<noteq> []" "cell vals j = v" "v \<noteq> []" by blast
  then show ?thesis using trim_idem[of "headers ! j"] cell_trimmed[of vals j] by auto
qed

lemma fillRow_key_iff:
  "k \<noteq> protoKey \<Longrightarrow>
   fst (fillRow headers vals n) k \<noteq> None \<longleftrightarrow>
     (\<exists>j<n. trim (headers ! j) = k \<and> k \<noteq> [] \<and> cell vals j \<noteq> [])"
proof (induction n)
  case 0
  show ?case by simp
next
  case (Suc n)
  then show ?case
    by (cases "fillRow headers vals n") (auto simp: Let_def less_Suc_eq objSet_def)
qed

lemma buildRow_key_iff:
  "k \<noteq> protoKey \<Longrightarrow>
   fst (buildRow headers vals) k \<noteq> None \<longleftrightarrow>
     (\<exists>j<length headers. trim (headers ! j) = k \<and> k \<noteq> [] \<and> cell vals j \<noteq> [])"
  unfolding buildRow_def by (rule fillRow_key_iff)

lemma buildRow_hasData_iff:
  "snd (buildRow headers vals) \<longleftrightarrow>
     (\<exists>j<length headers. trim (headers ! j) \<noteq> [] \<and> cell vals j \<noteq> [])"
  by (simp add: buildRow_def fillRow_hasData)

lemma dataRows_mem:
  "r \<in> set (dataRows headers ls) \<Longrightarrow>
   \<exists>line\<in>set ls. r = fst (buildRow headers (parseCSVRow line)) \<and> snd (buildRow headers (parseCSVRow line))"
proof (induction ls)
  case Nil
  then show ?case by simp
next
  case (Cons a ls)
  obtain obj has where b: "buildRow headers (parseCSVRow a) = (obj, has)"
    by (cases "buildRow headers (parseCSVRow a)") auto
  show ?case
  proof (cases "r \<in> set (dataRows headers ls)")
    case True
    with Cons.IH show ?thesis by auto
  next
    case False
    with Cons.prems b have "has \<and> r = obj" by (auto split: if_splits)
    with b show ?thesis by simp
  qed
qed

lemma parseCSV_mem:
  assumes "r \<in> set (parseCSV csvText)"
  shows "\<exists>line\<in>set (splitLines csvText).
           r = fst (buildRow (parseCSVRow (splitLines csvText ! 0)) (parseCSVRow line)) \<and>
           snd (buildRow (parseCSVRow (splitLines csvText ! 0)) (parseCSVRow line))"
proof -
  from assms have "r \<in> set (dataRows (parseCSVRow (splitLines csvText ! 0)) (drop 1 (splitLines csvText)))"
    by (simp add: parseCSV_def Let_def split: if_splits)
  from dataRows_mem[OF this] show ?thesis by (blast dest: in_set_dropD)
qed

lemma parseCSV_entry:
  assumes "r \<in> set (parseCSV csvText)" and "r k = Some v"
  shows "k \<noteq> [] \<and> v \<noteq> [] \<and> trim k = k \<and> trim v = v"
  using parseCSV_mem[OF assms(1)] assms(2) buildRow_entry by blast



text \<open>
  Claim C6. A data line whose only filled column has the header \<^verbatim>\<open>__proto__\<close> sets
  \<^verbatim>\<open>rowHasData\<close> but adds no key, so the row is pushed with an empty mapping: the pair
  is not included although header and value are not empty, and a row with no entry
  appears in the table. With any other header in that column the pair is stored.
\<close>

theorem proto_header_row_kept_empty:
  "buildRow [js ''__proto__''] [js ''x''] = (Map.empty, True) \<and>
   parseCSV (js ''__proto__'' @ LF # js ''x'') = [Map.empty] \<and>
   length (parseCSV (js ''__proto__,b'' @ LF # js ''x,'')) = 1 \<and>
   (parseCSV (js ''__proto__,b'' @ LF # js ''x,'') ! 0) (js ''__proto__'') = None \<and>
   (parseCSV (js ''a,b'' @ LF # js ''x,'') ! 0) (js ''a'') = Some (js ''x'')"
  by (simp add: eval_defs)

section \<open>Carriage returns\<close>

lemma scanLines_no_CR:
  "\<not> crInQuotes cs q \<Longrightarrow> CR \<notin> set cur \<Longrightarrow> \<forall>l\<in>set lines. CR \<notin> set l \<Longrightarrow>
   (case scanLines cs (lines, cur, q) of
      (lines', cur', _) \<Rightarrow> CR \<notin> set cur' \<and> (\<forall>l\<in>set lines'. CR \<notin> set l))"
supply scanLines.simps(2)[simp del] crInQuotes.simps(2)[simp del]
proof (induction cs "(lines, cur, q)" arbitrary: lines cur q rule: scanLines.induct)
  case 1
  then show ?case by simp
next
  case (2 c cs lines cur q)
  note step = scanLines.simps(2) and cr = crInQuotes.simps(2)
  show ?case
  proof (cases "c = DQUOTE")
    case True
    show ?thesis
    proof (cases "q \<and> nextIsQuote cs")
      case esc: True
      have "\<not> crInQuotes (tl cs) q" using "2.prems"(1) True esc by (simp add: cr)
      from "2.hyps"(1)[OF True esc this] "2.prems"(2,3) show ?thesis
        using True esc by (auto simp: step)
    next
      case False
      have "\<not> crInQuotes cs (\<not> q)" using "2.prems"(1) True False by (simp add: cr)
      from "2.hyps"(2)[OF True False this] "2.prems"(2,3) show ?thesis
        using True False by (auto simp: step)
    qed
  next
    case nq: False
    show ?thesis
    proof (cases "c = LF \<and> \<not> q")
      case True
      have "\<not> crInQuotes cs q" using "2.prems"(1) nq True by (simp add: cr)
      from "2.hyps"(3)[OF nq True this] "2.prems"(2,3) show ?thesis
        using nq True by (auto simp: step pushLine_def)
    next
      case nl: False
      show ?thesis
      proof (cases "c = CR \<and> \<not> q")
        case True
        have "\<not> crInQuotes cs q" using "2.prems"(1) nq True by (simp add: cr)
        from "2.hyps"(4)[OF nq nl True this] "2.prems"(2,3) show ?thesis
          using nq nl True by (auto simp: step)
      next
        case False
        have n: "\<not> crInQuotes cs q" and "c \<noteq> CR"
          using "2.prems"(1) nq False by (auto simp: cr split: if_splits)
        from "2.hyps"(5)[OF nq nl False n] "2.prems"(2,3) \<open>c \<noteq> CR\<close> show ?thesis
          using nq nl False by (auto simp: step)
      qed
    qed
  qed
qed

lemma splitLines_no_CR:
  assumes "\<not> crInQuotes csvText False"
  shows "\<forall>l\<in>set (splitLines csvText). CR \<notin> set l"
proof -
  obtain lines cur q where st: "scanLines csvText ([], [], False) = (lines, cur, q)"
    by (cases "scanLines csvText ([], [], False)") auto
  from scanLines_no_CR[OF assms, of "[]" "[]"] have "CR \<notin> set cur \<and> (\<forall>l\<in>set lines. CR \<notin> set l)"
    by (simp add: st)
  then show ?thesis by (simp add: splitLines_def st pushLine_def)
qed

lemma scanRow_no_CR:
  "CR \<notin> set cs \<Longrightarrow> CR \<notin> set cur \<Longrightarrow> \<forall>v\<in>set vals. CR \<notin> set v \<Longrightarrow>
   (case scanRow cs (vals, cur, q) of
      (vals', cur', _) \<Rightarrow> CR \<notin> set cur' \<and> (\<forall>v\<in>set vals'. CR \<notin> set v))"
  supply scanRow.simps(2)[simp del]
proof (induction cs "(vals, cur, q)" arbitrary: vals cur q rule: scanRow.induct)
  case 1
  then show ?case by simp
next
  case (2 c cs vals cur q)
  note step = scanRow.simps(2)
  have t: "CR \<notin> set (tl cs)" and s: "CR \<notin> set cs" and c: "c \<noteq> CR"
    using "2.prems"(1) by (cases cs; auto)+
  show ?case
  proof (cases "c = DQUOTE")
    case True
    show ?thesis
    proof (cases "q \<and> nextIsQuote cs")
      case esc: True
      from "2.hyps"(1)[OF True esc t] "2.prems"(2,3) show ?thesis
        using True esc by (auto simp: step)
    next
      case False
      from "2.hyps"(2)[OF True False s] "2.prems"(2,3) show ?thesis
        using True False by (auto simp: step)
    qed
  next
    case nq: False
    show ?thesis
    proof (cases "c = COMMA \<and> \<not> q")
      case True
      from "2.hyps"(3)[OF nq True s] "2.prems"(2,3) show ?thesis
        using nq True by (auto simp: step)
    next
      case False
      from "2.hyps"(4)[OF nq False s] "2.prems"(2,3) c show ?thesis
        using nq False by (auto simp: step)
    qed
  qed
qed

lemma parseCSVRow_no_CR:
  assumes "CR \<notin> set line"
  shows "\<forall>f\<in>set (parseCSVRow line). CR \<notin> set f"
proof -
  obtain vals cur q where st: "scanRow line ([], [], False) = (vals, cur, q)"
    by (cases "scanRow line ([], [], False)") auto
  from scanRow_no_CR[OF assms, of "[]" "[]" False] have "CR \<notin> set cur \<and> (\<forall>v\<in>set vals. CR \<notin> set v)"
    by (simp add: st)
  then show ?thesis by (simp add: parseCSVRow_def st)
qed

lemma buildRow_value_cell:
  assumes "fst (buildRow headers vals) k = Some v"
  shows "\<exists>j<length vals. v = trim (vals ! j) \<and> v \<noteq> []"
proof -
  from fillRow_lookup_Some[OF assms[unfolded buildRow_def]]
  obtain j where "cell vals j = v" "v \<noteq> []" by blast
  then show ?thesis by (auto simp: cell_def split: if_splits)
qed

text \<open>
  Claim C2, as the code has it. Outside quotes the line splitter discards a carriage
  return; inside quotes it appends it to the line like any other character. So when no
  carriage return of the text lies inside a quoted region, no value of any row contains
  one.
\<close>

theorem carriage_return_outside_quotes_dropped:
  "scanLines (CR # cs) (lines, currentLine, False) = scanLines cs (lines, currentLine, False) \<and>
   scanLines (CR # cs) (lines, currentLine, True) = scanLines cs (lines, currentLine @ [CR], True) \<and>
   (\<not> crInQuotes csvText False \<and> r \<in> set (parseCSV csvText) \<and> r k = Some v \<longrightarrow> CR \<notin> set v)"
proof (intro conjI impI)
  assume a: "\<not> crInQuotes csvText False \<and> r \<in> set (parseCSV csvText) \<and> r k = Some v"
  then obtain line where line: "line \<in> set (splitLines csvText)"
    and r: "r = fst (buildRow (parseCSVRow (splitLines csvText ! 0)) (parseCSVRow line))"
    using parseCSV_mem by blast
  from a line have "CR \<notin> set line" using splitLines_no_CR by blast
  then have f: "\<forall>f\<in>set (parseCSVRow line). CR \<notin> set f" by (rule parseCSVRow_no_CR)
  from a r obtain j where j: "j < length (parseCSVRow line)" "v = trim (parseCSVRow line ! j)"
    using buildRow_value_cell by blast
  then have "set v \<subseteq> set (parseCSVRow line ! j)" by (simp add: set_trim_subset)
  moreover from f j(1) have "CR \<notin> set (parseCSVRow line ! j)" by simp
  ultimately show "CR \<notin> set v" by blast
qed simp_all

theorem carriage_return_outside_quotes_dropped_witness:
  "\<not> crInQuotes (js ''h'' @ [CR, LF] @ js ''a'' @ [CR, LF]) False \<and>
   parseCSV (js ''h'' @ [CR, LF] @ js ''a'' @ [CR, LF]) = [[js ''h'' \<mapsto> js ''a'']] \<and>
   CR \<notin> set (js ''a'')"
proof -
  let ?t = "js ''h'' @ [CR, LF] @ js ''a'' @ [CR, LF]"
  have a: "\<not> crInQuotes ?t False" by (simp add: js_def)
  have b: "parseCSV ?t = [[js ''h'' \<mapsto> js ''a'']]" by (simp add: eval_defs)
  have m: "[js ''h'' \<mapsto> js ''a''] \<in> set (parseCSV ?t)"
    unfolding b by simp
  have l: "[js ''h'' \<mapsto> js ''a''] (js ''h'') = Some (js ''a'')"
    by simp
  from carriage_return_outside_quotes_dropped[of "[]" "[]" "[]" ?t "[js ''h'' \<mapsto> js ''a'']" "js ''h''" "js ''a''"]
    a m l
  have "CR \<notin> set (js ''a'')" by (elim conjE impE) (intro conjI)
  with a b show ?thesis by (intro conjI)
qed

text \<open>
  A carriage return inside a quoted cell reaches the value of the row: the claim that
  no value ever contains one fails on this text.
\<close>

theorem carriage_return_in_quotes_kept:
  "length (parseCSV (js ''h'' @ LF # DQUOTE # js ''a'' @ CR # js ''b'' @ [DQUOTE])) = 1 \<and>
   (parseCSV (js ''h'' @ LF # DQUOTE # js ''a'' @ CR # js ''b'' @ [DQUOTE]) ! 0) (js ''h'') =
     Some (js ''a'' @ CR # js ''b'') \<and>
   CR \<in> set (js ''a'' @ CR # js ''b'')"
  by (simp add: eval_defs)

section \<open>Properties of the snapshot builder\<close>

lemma fetchAll_other:
  "k \<notin> key ` set configs \<Longrightarrow> fetchAll net configs sheetsData k = sheetsData k"
  by (induction configs arbitrary: sheetsData) (auto split: sum.splits)

lemma fetchAll_lookup:
  "distinct (map key configs) \<Longrightarrow> config \<in> set configs \<Longrightarrow>
   fetchAll net configs sheetsData (key config) =
     Some (case fetchSheetData net config of Inr allRows \<Rightarrow> allRows | Inl e \<Rightarrow> [])"
proof (induction configs arbitrary: sheetsData)
  case Nil
  then show ?case by simp
next
  case (Cons c configs)
  show ?case
  proof (cases "config = c")
    case True
    with Cons.prems(1) have "key config \<notin> key ` set configs" by simp
    then show ?thesis using True by (simp add: fetchAll_other split: sum.splits)
  next
    case False
    with Cons show ?thesis by simp
  qed
qed

lemma SHEET_CONFIGS_distinct: "distinct (map key SHEET_CONFIGS)"
  by (simp add: SHEET_CONFIGS_def js_def)

lemma sheets_snapshot:
  "config \<in> set SHEET_CONFIGS \<Longrightarrow>
   sheets (snapshot net now) (key config) =
     Some (case fetchSheetData net config of Inr allRows \<Rightarrow> allRows | Inl e \<Rightarrow> [])"
  by (simp add: snapshot_def buildOutput_def Let_def fetchAll_lookup SHEET_CONFIGS_distinct)

text \<open>
  Claim C4. When the fetch of a configured sheet fails, the snapshot holds the empty
  table under that sheet's key, every configured sheet whose fetch succeeds holds its
  parsed table, every configured key has a table, and the run ends with exit code 0
  and writes the snapshot, provided that creating the directory and writing the file
  do not fail.
\<close>

theorem failed_fetch_gives_empty_table:
  "config \<in> set SHEET_CONFIGS \<and> net config = Inl e \<longrightarrow>
     sheets (snapshot net now) (key config) = Some [] \<and>
     (\<forall>other\<in>set SHEET_CONFIGS. \<forall>csvText. net other = Inr csvText \<longrightarrow>
        sheets (snapshot net now) (key other) = Some (parseCSV csvText)) \<and>
     (\<forall>other\<in>set SHEET_CONFIGS. sheets (snapshot net now) (key other) \<noteq> None) \<and>
     ((publicDirExists fs \<or> \<not> mkdirThrows fs) \<and> \<not> writeThrows fs \<longrightarrow>
        main net now fs = (0, Some (snapshot net now)))"
proof (intro impI conjI ballI allI)
  fix other
  assume "other \<in> set SHEET_CONFIGS"
  then show "sheets (snapshot net now) (key other) \<noteq> None"
    by (simp add: sheets_snapshot)
next
  assume "config \<in> set SHEET_CONFIGS \<and> net config = Inl e"
  then show "sheets (snapshot net now) (key config) = Some []"
    by (simp add: sheets_snapshot fetchSheetData_def)
next
  fix other csvText
  assume "other \<in> set SHEET_CONFIGS" and "net other = Inr csvText"
  then show "sheets (snapshot net now) (key other) = Some (parseCSV csvText)"
    by (simp add: sheets_snapshot fetchSheetData_def)
next
  assume "(publicDirExists fs \<or> \<not> mkdirThrows fs) \<and> \<not> writeThrows fs"
  then show "main net now fs = (0, Some (snapshot net now))"
    by (auto simp: main_def Let_def)
qed

theorem failed_fetch_gives_empty_table_witness:
  "sheets (snapshot (\<lambda>c. if key c = js ''output'' then Inr (js ''id'' @ LF # js ''7'')
                          else Inl TransportFailure)
             \<lparr>fullYear = 2026, monthIndex = 10, isoString = js ''2026-11-02T06:00:00.000Z''\<rparr>)
     (js ''mafia'') = Some [] \<and>
   sheets (snapshot (\<lambda>c. if key c = js ''output'' then Inr (js ''id'' @ LF # js ''7'')
                          else Inl TransportFailure)
             \<lparr>fullYear = 2026, monthIndex = 10, isoString = js ''2026-11-02T06:00:00.000Z''\<rparr>)
     (js ''output'') = Some [[js ''id'' \<mapsto> js ''7'']] \<and>
   fst (main (\<lambda>c. if key c = js ''output'' then Inr (js ''id'' @ LF # js ''7'')
                   else Inl TransportFailure)
          \<lparr>fullYear = 2026, monthIndex = 10, isoString = js ''2026-11-02T06:00:00.000Z''\<rparr>
          \<lparr>publicDirExists = False, mkdirThrows = False, writeThrows = False\<rparr>) = 0"
proof -
  let ?net = "\<lambda>c. if key c = js ''output'' then Inr (js ''id'' @ LF # js ''7'')
                   else Inl TransportFailure :: fetch_error + jsstring"
  let ?now = "\<lparr>fullYear = 2026, monthIndex = 10, isoString = js ''2026-11-02T06:00:00.000Z''\<rparr>"
  let ?fs = "\<lparr>publicDirExists = False, mkdirThrows = False, writeThrows = False\<rparr>"
  let ?mafia = "\<lparr>key = js ''mafia'', name = js ''Mafia'', gid = js ''1431246161''\<rparr>"
  let ?output = "\<lparr>key = js ''output'', name = js ''output'', gid = js ''0''\<rparr>"
  have m: "?mafia \<in> set SHEET_CONFIGS \<and> ?net ?mafia = Inl TransportFailure"
    by (simp add: SHEET_CONFIGS_def js_def)
  have o: "?output \<in> set SHEET_CONFIGS" "?net ?output = Inr (js ''id'' @ LF # js ''7'')"
    by (simp_all add: SHEET_CONFIGS_def)
  have p: "parseCSV (js ''id'' @ LF # js ''7'') = [[js ''id'' \<mapsto> js ''7'']]"
    by (simp add: eval_defs)
  have f: "(publicDirExists ?fs \<or> \<not> mkdirThrows ?fs) \<and> \<not> writeThrows ?fs"
    by simp
  from failed_fetch_gives_empty_table[of ?mafia ?net TransportFailure ?now ?fs] m
  have r: "sheets (snapshot ?net ?now) (key ?mafia) = Some []"
    "\<forall>other\<in>set SHEET_CONFIGS. \<forall>csvText. ?net other = Inr csvText \<longrightarrow>
        sheets (snapshot ?net ?now) (key other) = Some (parseCSV csvText)"
    "(publicDirExists ?fs \<or> \<not> mkdirThrows ?fs) \<and> \<not> writeThrows ?fs \<longrightarrow>
        main ?net ?now ?fs = (0, Some (snapshot ?net ?now))"
    by blast+
  from r(2) o have "sheets (snapshot ?net ?now) (key ?output) = Some (parseCSV (js ''id'' @ LF # js ''7''))"
    by blast
  with r(1) r(3) f p show ?thesis by simp
qed

lemma month_cases:
  "m < 12 \<Longrightarrow> m = 0 \<or> m = 1 \<or> m = 2 \<or> m = 3 \<or> m = 4 \<or> m = 5 \<or> m = 6 \<or> m = 7 \<or> m = 8 \<or>
     m = 9 \<or> m = 10 \<or> m = (11::nat)"
  by arith

lemma ceil_third: "m < 12 \<Longrightarrow> \<lceil>(real m + 1) / 3\<rceil> = int (m div 3) + 1"
  by (drule month_cases) (elim disjE; simp add: ceiling_eq_iff)

lemma digit_cases:
  "d < 10 \<Longrightarrow> d = 0 \<or> d = 1 \<or> d = 2 \<or> d = 3 \<or> d = 4 \<or> d = 5 \<or> d = 6 \<or> d = 7 \<or> d = 8 \<or> d = (9::nat)"
  by arith

lemma isDigit_digitChar: "d < 10 \<Longrightarrow> isDigit (digitChar d)"
  by (drule digit_cases) (elim disjE; simp add: isDigit_def digitChar_def)

lemma digitsOf_four:
  assumes "1000 \<le> n" and "n \<le> 9999"
  shows "digitsOf n = [digitChar (n div 1000), digitChar (n div 100 mod 10),
                       digitChar (n div 10 mod 10), digitChar (n mod 10)]"
proof -
  have a: "\<not> n < 10" "\<not> n div 10 < 10" "\<not> n div 10 div 10 < 10" "n div 10 div 10 div 10 < 10"
    using assms by simp_all
  have b: "n div 10 div 10 = n div 100" "n div 100 div 10 = n div 1000"
    by (simp_all add: div_mult2_eq[symmetric])
  show ?thesis
    using a
    by (subst digitsOf.simps, subst digitsOf.simps, subst digitsOf.simps, subst digitsOf.simps)
       (simp add: b)
qed

lemma digitsOf_digit: "d < 10 \<Longrightarrow> digitsOf d = [digitChar d]"
  by simp

text \<open>
  Claim C5. For the months 1 to 12 the quarter number of the snapshot is the ceiling of
  a third of the month and lies between 1 and 4; the reporting quarter is the year, the
  letter Q and the quarter number, and for a year of four digits it matches the pattern
  \<^verbatim>\<open>^\d{4}Q[1-4]$\<close>.
\<close>

theorem reporting_quarter_from_month:
  "m \<in> {1..12} \<and> monthIndex now = m - 1 \<and> 1000 \<le> fullYear now \<and> fullYear now \<le> 9999 \<longrightarrow>
     reporting_quarter_number (meta (buildOutput sheetsData now)) = \<lceil>real m / 3\<rceil> \<and>
     reporting_quarter_number (meta (buildOutput sheetsData now)) \<in> {1, 2, 3, 4} \<and>
     reporting_year (meta (buildOutput sheetsData now)) = fullYear now \<and>
     reporting_quarter (meta (buildOutput sheetsData now)) =
       numberToString (fullYear now) @ js ''Q'' @
       numberToString (reporting_quarter_number (meta (buildOutput sheetsData now))) \<and>
     matchesQuarterPattern (reporting_quarter (meta (buildOutput sheetsData now)))"
proof (intro impI)
  assume a: "m \<in> {1..12} \<and> monthIndex now = m - 1 \<and> 1000 \<le> fullYear now \<and> fullYear now \<le> 9999"
  let ?k = "monthIndex now"
  let ?y = "nat (fullYear now)"
  from a have k: "?k < 12" and m: "m = ?k + 1" by auto
  have q: "quarterNumber now = int (?k div 3) + 1"
    using k by (simp add: quarterNumber_def ceil_third)
  have q1: "quarterNumber now = \<lceil>real m / 3\<rceil>"
    by (simp add: quarterNumber_def m add.commute)
  have d3: "?k div 3 < 3 + 1" using k by simp
  then have qr: "quarterNumber now \<in> {1, 2, 3, 4}"
    unfolding q by auto
  have y: "1000 \<le> ?y" "?y \<le> 9999" using a by auto
  have ys: "numberToString (fullYear now) =
      [digitChar (?y div 1000), digitChar (?y div 100 mod 10),
       digitChar (?y div 10 mod 10), digitChar (?y mod 10)]"
    using a digitsOf_four[OF y] by (simp add: numberToString_def)
  have qs: "numberToString (quarterNumber now) = [digitChar (?k div 3 + 1)]"
    using d3 by (simp add: numberToString_def q nat_add_distrib)
  have y1: "?y div 1000 < 10" using y by simp
  have qd: "0x31 \<le> digitChar (?k div 3 + 1) \<and> digitChar (?k div 3 + 1) \<le> 0x34"
    using month_cases[OF k] by (elim disjE; simp add: digitChar_def)
  have pat: "matchesQuarterPattern (numberToString (fullYear now) @ js ''Q'' @
      numberToString (quarterNumber now))"
    unfolding ys qs using qd y1
    by (simp add: matchesQuarterPattern_def js_def isDigit_digitChar)
  show "reporting_quarter_number (meta (buildOutput sheetsData now)) = \<lceil>real m / 3\<rceil> \<and>
     reporting_quarter_number (meta (buildOutput sheetsData now)) \<in> {1, 2, 3, 4} \<and>
     reporting_year (meta (buildOutput sheetsData now)) = fullYear now \<and>
     reporting_quarter (meta (buildOutput sheetsData now)) =
       numberToString (fullYear now) @ js ''Q'' @
       numberToString (reporting_quarter_number (meta (buildOutput sheetsData now))) \<and>
     matchesQuarterPattern (reporting_quarter (meta (buildOutput sheetsData now)))"
    using q1 qr pat by (simp add: buildOutput_def Let_def)
qed

theorem reporting_quarter_from_month_witness:
  "reporting_quarter_number
     (meta (buildOutput Map.empty \<lparr>fullYear = 2026, monthIndex = 10, isoString = []\<rparr>)) = 4 \<and>
   reporting_quarter
     (meta (buildOutput Map.empty \<lparr>fullYear = 2026, monthIndex = 10, isoString = []\<rparr>)) =
     js ''2026Q4'' \<and>
   matchesQuarterPattern (js ''2026Q4'')"
proof -
  let ?now = "\<lparr>fullYear = 2026, monthIndex = 10, isoString = []\<rparr>"
  have h: "(11::nat) \<in> {1..12} \<and> monthIndex ?now = 11 - 1 \<and> 1000 \<le> fullYear ?now \<and>
      fullYear ?now \<le> 9999"
    by simp
  have c: "\<lceil>real 11 / 3\<rceil> = (4::int)" by (simp add: ceiling_eq_iff)
  have s: "numberToString 2026 @ js ''Q'' @ numberToString 4 = js ''2026Q4''"
    by (simp add: numberToString_def js_def digitChar_def)
  from reporting_quarter_from_month[of 11 ?now Map.empty] h
  have "reporting_quarter_number (meta (buildOutput Map.empty ?now)) = \<lceil>real 11 / 3\<rceil>"
    and "reporting_quarter (meta (buildOutput Map.empty ?now)) =
       numberToString (fullYear ?now) @ js ''Q'' @
       numberToString (reporting_quarter_number (meta (buildOutput Map.empty ?now)))"
    and "matchesQuarterPattern (reporting_quarter (meta (buildOutput Map.empty ?now)))"
    by blast+
  then show ?thesis using c s by simp
qed

end
